theory Spec2Isabelle
  imports Main "HOL-Library.Sublist" "HOL-Library.Log_Nat"
begin

section \<open>PortraitGeneratorApp: rate limiter and retry loop of src/index.tsx\<close>

text \<open>
  The class \<^verbatim>\<open>PortraitGeneratorApp\<close> is embedded as a record of its fields and
  one state-passing function per method. What the methods do to the outside world (the
  store, the alert box, the status shown, the two remote calls) is appended to a trace, so
  that the order of effects can be stated. What the outside world does to a running
  session (the replies of the remote model, the handlers that run while a call is awaited)
  is an explicit argument.

  Timestamps are JavaScript numbers. A number of the model is an integer (milliseconds,
  as \<^verbatim>\<open>Date.now()\<close> returns them) or one of the two infinities; a number with
  a fractional part is not modelled.
\<close>

subsection \<open>Constants (lines 51, 52 and 479)\<close>

definition RATE_LIMIT_WINDOW_MS :: int where
  "RATE_LIMIT_WINDOW_MS = 10 * 60 * 1000"

definition RATE_LIMIT_MAX_GENERATIONS :: nat where
  "RATE_LIMIT_MAX_GENERATIONS = 5"

definition MAX_ATTEMPTS :: nat where
  "MAX_ATTEMPTS = 5"

subsection \<open>Values parsed from the store, and their coercion to a number\<close>

datatype exn = SyntaxError | TypeError | CallError

datatype number = Finite int | PosInfinity | NegInfinity | NaN

text \<open>
  An element of a parsed array, as \<^verbatim>\<open>JSON.parse\<close> returns it. \<open>JNumber n\<close> is
  a finite number whose value is the integer \<open>n\<close>: the value after the parser has
  rounded the literal. A literal too large for a finite number is parsed as an infinity:
  \<^verbatim>\<open>1e309\<close> is \<open>JInfinity True\<close> and \<^verbatim>\<open>-1e309\<close> is \<open>JInfinity False\<close>.

  The code applies to an element only the subtraction operator, which coerces it to a
  number first: a number is itself, \<^verbatim>\<open>null\<close> is 0, \<^verbatim>\<open>true\<close> is 1 and
  \<^verbatim>\<open>false\<close> is 0. A string, or a nested array or object that holds no infinite
  number, is \<open>JOther r\<close>, where \<open>r\<close> is what the coercion of that value gives: a
  number (the string \<^verbatim>\<open>"12"\<close>), \<open>NaN\<close> (the string \<^verbatim>\<open>"abc"\<close>) or a
  thrown \<open>TypeError\<close> (an object whose own \<^verbatim>\<open>toString\<close> is not callable).
\<close>

datatype elem = JNumber int | JInfinity bool | JNull | JBool bool | JOther "exn + number"



fun ToNumber :: "elem \<Rightarrow> exn + number" where
  "ToNumber (JNumber n) = Inr (Finite n)"
| "ToNumber (JInfinity positive) = Inr (if positive then PosInfinity else NegInfinity)"
| "ToNumber JNull = Inr (Finite 0)"
| "ToNumber (JBool b) = Inr (Finite (if b then 1 else 0))"
| "ToNumber (JOther r) = r"

text \<open>The coercion of the element gives a value: it does not throw.\<close>

definition coerces :: "elem \<Rightarrow> bool" where
  "coerces x = (case ToNumber x of Inl e \<Rightarrow> False | Inr v \<Rightarrow> True)"

text \<open>
  The difference of two numbers. Of a difference the code uses only the sign (line 129)
  and whether it is below the window (line 130); for integers and infinities neither
  depends on the rounding of the difference, which is therefore left out.
\<close>

fun minus_number :: "number \<Rightarrow> number \<Rightarrow> number" where
  "minus_number NaN y = NaN"
| "minus_number x NaN = NaN"
| "minus_number (Finite i) (Finite j) = Finite (i - j)"
| "minus_number (Finite i) PosInfinity = NegInfinity"
| "minus_number (Finite i) NegInfinity = PosInfinity"
| "minus_number PosInfinity PosInfinity = NaN"
| "minus_number PosInfinity y = PosInfinity"
| "minus_number NegInfinity NegInfinity = NaN"
| "minus_number NegInfinity y = NegInfinity"

text \<open>The expression \<^verbatim>\<open>a - b\<close>: the left operand is coerced first.\<close>

definition js_minus :: "elem \<Rightarrow> elem \<Rightarrow> exn + number" where
  "js_minus a b =
     (case ToNumber a of
        Inl e \<Rightarrow> Inl e
      | Inr x \<Rightarrow>
          (case ToNumber b of
             Inl e \<Rightarrow> Inl e
           | Inr y \<Rightarrow> Inr (minus_number x y)))"

text \<open>
  \<^verbatim>\<open>timestamps.sort((a, b) => a - b)\<close> (line 129). The comparator's result decides
  the order by its sign, and a \<open>NaN\<close> result counts as 0. The library sort is stable and
  leaves the sequence of comparator calls to the engine; it is modelled as stable
  insertion. Where no difference is \<open>NaN\<close> the result is the one every engine gives:
  the elements in ascending order of their numbers, equal ones in their stored order.
  Where a difference is \<open>NaN\<close> the comparator is inconsistent and the language leaves
  the order to the engine: the order below is then one of the orders an engine may
  give, and engines differ. An exception of the comparator leaves the sort.
\<close>

definition SortCompare :: "elem \<Rightarrow> elem \<Rightarrow> exn + int" where
  "SortCompare a b =
     (case js_minus a b of
        Inl e \<Rightarrow> Inl e
      | Inr NaN \<Rightarrow> Inr 0
      | Inr (Finite d) \<Rightarrow> Inr d
      | Inr PosInfinity \<Rightarrow> Inr 1
      | Inr NegInfinity \<Rightarrow> Inr (- 1))"

fun insert_js :: "elem \<Rightarrow> elem list \<Rightarrow> exn + elem list" where
  "insert_js x [] = Inr [x]"
| "insert_js x (y # ys) =
     (case SortCompare x y of
        Inl e \<Rightarrow> Inl e
      | Inr c \<Rightarrow>
          if c \<le> 0 then Inr (x # y # ys)
          else (case insert_js x ys of Inl e \<Rightarrow> Inl e | Inr zs \<Rightarrow> Inr (y # zs)))"

fun sort_js :: "elem list \<Rightarrow> exn + elem list" where
  "sort_js [] = Inr []"
| "sort_js (x # xs) =
     (case sort_js xs of Inl e \<Rightarrow> Inl e | Inr ys \<Rightarrow> insert_js x ys)"

text \<open>\<^verbatim>\<open>.filter(ts => (now - ts) < this.RATE_LIMIT_WINDOW_MS)\<close> (line 130).
  A comparison with \<open>NaN\<close> is false.\<close>

fun less_window :: "number \<Rightarrow> bool" where
  "less_window (Finite d) = (d < RATE_LIMIT_WINDOW_MS)"
| "less_window NegInfinity = True"
| "less_window PosInfinity = False"
| "less_window NaN = False"

definition within_window :: "int \<Rightarrow> elem \<Rightarrow> exn + bool" where
  "within_window now ts =
     (case js_minus (JNumber now) ts of
        Inl e \<Rightarrow> Inl e
      | Inr d \<Rightarrow> Inr (less_window d))"

fun filter_js :: "(elem \<Rightarrow> exn + bool) \<Rightarrow> elem list \<Rightarrow> exn + elem list" where
  "filter_js p [] = Inr []"
| "filter_js p (x # xs) =
     (case p x of
        Inl e \<Rightarrow> Inl e
      | Inr b \<Rightarrow>
          (case filter_js p xs of
             Inl e \<Rightarrow> Inl e
           | Inr ys \<Rightarrow> Inr (if b then x # ys else ys)))"

subsection \<open>The store\<close>

text \<open>
  \<^verbatim>\<open>localStorage\<close> holds a string under \<^verbatim>\<open>TIMESTAMP_STORAGE_KEY\<close>, or
  nothing. A string is represented by what the code can observe of it: it is empty
  (falsy), or \<^verbatim>\<open>JSON.parse\<close> throws on it, or \<^verbatim>\<open>JSON.parse\<close> returns a
  value, which is an array of elements or something that is not an array.
\<close>

datatype document = ArrayValue "elem list" | OtherValue

datatype item = EmptyString | Unparseable | Encoding document

fun JSON_parse :: "item \<Rightarrow> exn + document" where
  "JSON_parse (Encoding d) = Inr d"
| "JSON_parse EmptyString = Inl SyntaxError"
| "JSON_parse Unparseable = Inl SyntaxError"

text \<open>
  \<^verbatim>\<open>JSON.stringify\<close> of the log. An infinite number is written as
  \<^verbatim>\<open>null\<close>; every other element is written so that it parses back to itself.
\<close>

fun stringify_elem :: "elem \<Rightarrow> elem" where
  "stringify_elem (JInfinity positive) = JNull"
| "stringify_elem x = x"

definition JSON_stringify :: "elem list \<Rightarrow> item" where
  "JSON_stringify xs = Encoding (ArrayValue (map stringify_elem xs))"

fun truthy_item :: "item option \<Rightarrow> bool" where
  "truthy_item None = False"
| "truthy_item (Some EmptyString) = False"
| "truthy_item (Some _) = True"

fun truthy :: "string option \<Rightarrow> bool" where
  "truthy None = False"
| "truthy (Some v) = (v \<noteq> [])"

subsection \<open>The application state and its trace\<close>

datatype ui_state = Idle | Loading | Success | Failure | Terminating

datatype alert = QuotaReached | NoPhoto | InvalidFile

datatype action =
    SetItem item
  | Alert alert
  | UpdateUIState ui_state bool
  | GenerateContent nat
  | VerifyContent

record app =
  store :: "item option"
  uploadedBase64Image :: "string option"
  failureCount :: nat
  successfulImageData :: "string option"
  isGenerationTerminated :: bool
  isCartoonMode :: bool
  generationTimestamps :: "elem list"
  status :: ui_state
  trace :: "action list"

definition emit :: "action \<Rightarrow> app \<Rightarrow> app" where
  "emit a s = s\<lparr>trace := trace s @ [a]\<rparr>"

text \<open>\<^verbatim>\<open>_updateUIState\<close> (lines 282-343): the status shown; the classes and
  texts of the page are not modelled.\<close>

definition updateUIState :: "ui_state \<Rightarrow> bool \<Rightarrow> app \<Rightarrow> app" where
  "updateUIState st isRegen s = emit (UpdateUIState st isRegen) (s\<lparr>status := st\<rparr>)"

subsection \<open>Usage tracking (lines 119-145)\<close>

definition saveTimestamps :: "app \<Rightarrow> app" where
  "saveTimestamps s =
     emit (SetItem (JSON_stringify (generationTimestamps s)))
       (s\<lparr>store := Some (JSON_stringify (generationTimestamps s))\<rparr>)"

text \<open>The body of the \<^verbatim>\<open>try\<close> block (lines 126-131), with the value that
  \<open>validTimestamps\<close> has when the block ends without an exception.\<close>

definition try_block :: "int \<Rightarrow> item \<Rightarrow> exn + elem list" where
  "try_block now storedData =
     (case JSON_parse storedData of
        Inl e \<Rightarrow> Inl e
      | Inr timestamps \<Rightarrow>
          (case timestamps of
             ArrayValue xs \<Rightarrow>
               (case sort_js xs of
                  Inl e \<Rightarrow> Inl e
                | Inr ys \<Rightarrow> filter_js (within_window now) ys)
           | OtherValue \<Rightarrow> Inr []))"

definition loadRateLimitData :: "int \<Rightarrow> app \<Rightarrow> app" where
  "loadRateLimitData now s =
     (let storedData = store s;
          validTimestamps =
            (if truthy_item storedData then
               (case storedData of
                  None \<Rightarrow> []
                | Some d \<Rightarrow> (case try_block now d of Inl e \<Rightarrow> [] | Inr v \<Rightarrow> v))
             else [])
      in saveTimestamps (s\<lparr>generationTimestamps := validTimestamps\<rparr>))"

subsection \<open>Handlers that run between two steps of a session\<close>

text \<open>\<^verbatim>\<open>resetUI\<close> (lines 345-365).\<close>

definition resetUI :: "app \<Rightarrow> app" where
  "resetUI s =
     (updateUIState Idle False
        (s\<lparr>uploadedBase64Image := None, successfulImageData := None,
           isCartoonMode := False\<rparr>))\<lparr>failureCount := 0\<rparr>"

text \<open>
  \<^verbatim>\<open>handleFile\<close> (lines 368-389), together with the \<^verbatim>\<open>onload\<close> callback of
  its reader: the file is absent, or is not an image, or is an image that the reader
  turns into the given data URL.
\<close>

datatype upload = NoFile | OtherFile | ImageFile string

definition after_comma :: "string \<Rightarrow> string" where
  "after_comma r =
     takeWhile (\<lambda>c. c \<noteq> CHR '','') (tl (dropWhile (\<lambda>c. c \<noteq> CHR '','') r))"

definition handleFile :: "upload \<Rightarrow> app \<Rightarrow> app" where
  "handleFile f s =
     (case f of
        NoFile \<Rightarrow> s
      | OtherFile \<Rightarrow> emit (Alert InvalidFile) s
      | ImageFile r \<Rightarrow>
          if r \<noteq> [] then
            s\<lparr>uploadedBase64Image :=
                (if CHR '','' \<in> set r then Some (after_comma r) else uploadedBase64Image s),
              failureCount := 0\<rparr>
          else s)"

text \<open>
  The listeners of lines 88-101 and the reload that the rate-limit timer schedules
  (lines 189 and 201). Each runs to its end without a pause, so it can run whenever the
  session awaits a remote call.
\<close>

datatype handler =
    TerminateClick
  | CartoonChange bool
  | ClearClick
  | FileInput upload
  | TimerReload int

fun handle :: "handler \<Rightarrow> app \<Rightarrow> app" where
  "handle TerminateClick s = s\<lparr>isGenerationTerminated := True\<rparr>"
| "handle (CartoonChange b) s = s\<lparr>isCartoonMode := b\<rparr>"
| "handle ClearClick s = resetUI s"
| "handle (FileInput f) s = handleFile f s"
| "handle (TimerReload now) s = loadRateLimitData now s"

fun run_handlers :: "handler list \<Rightarrow> app \<Rightarrow> app" where
  "run_handlers [] s = s"
| "run_handlers (h # hs) s = run_handlers hs (handle h s)"

subsection \<open>The retry loop (lines 452-531)\<close>

text \<open>
  What the outside world does during one attempt: the awaited
  \<^verbatim>\<open>generateContent\<close> call throws or gives the \<open>base64Data\<close> of lines 501-502
  (absent when no part carries data), the handlers that run while it is awaited, and the
  same for the call inside \<^verbatim>\<open>verifyImageMatch\<close>, whose answer is whether the
  trimmed upper-case text is \<^verbatim>\<open>YES\<close>.
\<close>

record attempt_env =
  generate_reply :: "exn + string option"
  during_generate :: "handler list"
  verify_reply :: "exn + bool"
  during_verify :: "handler list"

record result =
  success :: bool
  base64Data :: "string option"
  terminated :: bool

text \<open>\<^verbatim>\<open>verifyImageMatch\<close> (lines 452-472) catches its own exception.\<close>

definition verifyImageMatch :: "exn + bool \<Rightarrow> bool" where
  "verifyImageMatch reply = (case reply of Inl e \<Rightarrow> False | Inr yes \<Rightarrow> yes)"

text \<open>Lines 518-530, reached when the loop ends by \<^verbatim>\<open>break\<close> or by exhaustion.\<close>

definition after_loop :: "bool \<Rightarrow> bool \<Rightarrow> string option \<Rightarrow> app \<Rightarrow> app \<times> result" where
  "after_loop isRegeneration ok successfulBase64Data s =
     (let s1 =
            (if ok then updateUIState Success False (s\<lparr>successfulImageData := successfulBase64Data\<rparr>)
             else
               (let s2 = updateUIState Failure isRegeneration s
                in if \<not> isRegeneration then s2\<lparr>failureCount := failureCount s2 + 1\<rparr> else s2))
      in (s1, \<lparr>success = ok, base64Data = successfulBase64Data, terminated = False\<rparr>))"

text \<open>
  One iteration of the \<^verbatim>\<open>for\<close> loop (lines 482-515). It ends by going on to the
  next attempt (the end of the body, also through the \<^verbatim>\<open>catch\<close>), by
  \<^verbatim>\<open>break\<close> with the image, or by \<^verbatim>\<open>return\<close>.
\<close>

datatype flow = Continue app | Break "string option" app | Return app result

definition attempt :: "attempt_env \<Rightarrow> nat \<Rightarrow> app \<Rightarrow> flow" where
  "attempt e n s =
     (if isGenerationTerminated s then
        Return (updateUIState Terminating False s)
          \<lparr>success = False, base64Data = None, terminated = True\<rparr>
      else
        (let s1 = run_handlers (during_generate e) (emit (GenerateContent n) s)
         in case generate_reply e of
              Inl x \<Rightarrow> Continue s1
            | Inr data \<Rightarrow>
                (if truthy data then
                   (if isCartoonMode s1 then Break data s1
                    else
                      (let s2 = run_handlers (during_verify e) (emit VerifyContent s1)
                       in if verifyImageMatch (verify_reply e) then Break data s2
                          else Continue s2))
                 else Continue s1)))"

function attempts :: "bool \<Rightarrow> (nat \<Rightarrow> attempt_env) \<Rightarrow> nat \<Rightarrow> app \<Rightarrow> app \<times> result" where
  "attempts isRegeneration env n s =
     (if n \<le> MAX_ATTEMPTS then
        (case attempt (env n) n s of
           Continue s' \<Rightarrow> attempts isRegeneration env (n + 1) s'
         | Break data s' \<Rightarrow> after_loop isRegeneration True data s'
         | Return s' res \<Rightarrow> (s', res))
      else after_loop isRegeneration False None s)"
  by pat_completeness auto
termination
  by (relation "measure (\<lambda>(r, env, n, s). MAX_ATTEMPTS + 1 - n)") auto

declare attempts.simps [simp del]

definition generateSingleView :: "bool \<Rightarrow> (nat \<Rightarrow> attempt_env) \<Rightarrow> app \<Rightarrow> app \<times> result" where
  "generateSingleView isRegeneration env s =
     attempts isRegeneration env 1 (updateUIState Loading isRegeneration s)"

subsection \<open>Main logic (lines 147-165 and 534-557)\<close>

definition startGenerationProcess :: "(nat \<Rightarrow> attempt_env) \<Rightarrow> app \<Rightarrow> app" where
  "startGenerationProcess env s =
     (if \<not> truthy (uploadedBase64Image s) then emit (Alert NoPhoto) s
      else
        fst (generateSingleView False env
               (s\<lparr>isGenerationTerminated := False, failureCount := 0,
                  successfulImageData := None\<rparr>)))"

datatype kind = Generate | Regenerate

text \<open>
  \<^verbatim>\<open>handleGenerationClick\<close>. The clock is read twice, inside
  \<^verbatim>\<open>loadRateLimitData\<close> and for the pushed timestamp; the two readings are
  independent arguments.
\<close>

definition handleGenerationClick ::
  "kind \<Rightarrow> int \<Rightarrow> int \<Rightarrow> (nat \<Rightarrow> attempt_env) \<Rightarrow> app \<Rightarrow> app" where
  "handleGenerationClick type now_load now_push env s =
     (let s1 = loadRateLimitData now_load s
      in if length (generationTimestamps s1) \<ge> RATE_LIMIT_MAX_GENERATIONS
         then emit (Alert QuotaReached) s1
         else
           (let s2 = saveTimestamps
                       (s1\<lparr>generationTimestamps := generationTimestamps s1 @ [JNumber now_push]\<rparr>)
            in case type of
                 Generate \<Rightarrow> startGenerationProcess env s2
               | Regenerate \<Rightarrow> fst (generateSingleView True env s2)))"

text \<open>A run of the page: clicks on the two generation buttons, each with the session
  it starts run to its end, and the other handlers.\<close>

datatype event =
    GenerationClick kind int int "nat \<Rightarrow> attempt_env"
  | Other handler

fun step :: "event \<Rightarrow> app \<Rightarrow> app" where
  "step (GenerationClick k now_load now_push env) s = handleGenerationClick k now_load now_push env s"
| "step (Other h) s = handle h s"

fun run :: "event list \<Rightarrow> app \<Rightarrow> app" where
  "run [] s = s"
| "run (e # es) s = run es (step e s)"

text \<open>The field initialisers (lines 43-54) and the constructor (lines 58-64), over what
  the store holds when the page is opened.\<close>

definition fresh :: "item option \<Rightarrow> app" where
  "fresh stored =
     \<lparr>store = stored, uploadedBase64Image = None, failureCount = 0,
      successfulImageData = None, isGenerationTerminated = False, isCartoonMode = False,
      generationTimestamps = [], status = Idle, trace = []\<rparr>"

definition constructor :: "item option \<Rightarrow> int \<Rightarrow> app" where
  "constructor stored now = loadRateLimitData now (fresh stored)"

subsection \<open>What the claims speak of\<close>

text \<open>The remote calls that a state's trace records.\<close>

fun is_generate :: "action \<Rightarrow> bool" where
  "is_generate (GenerateContent n) = True"
| "is_generate _ = False"

fun is_verify :: "action \<Rightarrow> bool" where
  "is_verify VerifyContent = True"
| "is_verify _ = False"

definition generate_calls :: "app \<Rightarrow> nat" where
  "generate_calls s = length (filter is_generate (trace s))"

definition verify_calls :: "app \<Rightarrow> nat" where
  "verify_calls s = length (filter is_verify (trace s))"





text \<open>No handler that runs while a generation call is awaited switches cartoon mode
  off: the checkbox is not cleared and the clear button is not pressed.\<close>

fun keeps_cartoon :: "handler \<Rightarrow> bool" where
  "keeps_cartoon (CartoonChange b) = b"
| "keeps_cartoon ClearClick = False"
| "keeps_cartoon _ = True"

definition stays_cartoon :: "(nat \<Rightarrow> attempt_env) \<Rightarrow> bool" where
  "stays_cartoon env =
     (\<forall>n \<in> {1..MAX_ATTEMPTS}. list_all keeps_cartoon (during_generate (env n)))"

text \<open>Three worlds for a session: every generation call throws; every generation
  call gives an image that the check accepts; the first call throws while the terminate
  button is pressed.\<close>

definition env_failing :: "nat \<Rightarrow> attempt_env" where
  "env_failing n =
     \<lparr>generate_reply = Inl CallError, during_generate = [], verify_reply = Inr False,
      during_verify = []\<rparr>"

definition env_image :: "nat \<Rightarrow> attempt_env" where
  "env_image n =
     \<lparr>generate_reply = Inr (Some ''/9j/4AAQ''), during_generate = [], verify_reply = Inr True,
      during_verify = []\<rparr>"

definition env_cancelled :: "nat \<Rightarrow> attempt_env" where
  "env_cancelled n =
     \<lparr>generate_reply = Inl CallError, during_generate = [TerminateClick],
      verify_reply = Inr False, during_verify = []\<rparr>"

text \<open>No handler that runs during the session is the reload of the rate-limit timer.\<close>

fun is_reload :: "handler \<Rightarrow> bool" where
  "is_reload (TimerReload now) = True"
| "is_reload _ = False"

definition no_reload :: "(nat \<Rightarrow> attempt_env) \<Rightarrow> bool" where
  "no_reload env =
     (\<forall>n \<in> {1..MAX_ATTEMPTS}.
        \<not> list_ex is_reload (during_generate (env n)) \<and>
        \<not> list_ex is_reload (during_verify (env n)))"

text \<open>How many entries the store holds, and the bound that admission keeps: at most
  \<open>RATE_LIMIT_MAX_GENERATIONS\<close> entries in the log and in the store.\<close>

fun stored_length :: "item option \<Rightarrow> nat" where
  "stored_length (Some (Encoding (ArrayValue xs))) = length xs"
| "stored_length _ = 0"

definition within_limit :: "app \<Rightarrow> bool" where
  "within_limit s =
     (length (generationTimestamps s) \<le> RATE_LIMIT_MAX_GENERATIONS \<and>
      stored_length (store s) \<le> RATE_LIMIT_MAX_GENERATIONS)"

text \<open>The entries of the log whose age at the given time is below the window.\<close>

definition active :: "int \<Rightarrow> app \<Rightarrow> nat" where
  "active now s =
     length (filter (\<lambda>entry. within_window now entry = Inr True) (generationTimestamps s))"

text \<open>The page opened on an empty store at time 0, after a photo has been read.\<close>

definition uploaded :: app where
  "uploaded = handle (FileInput (ImageFile ''data:image/png;base64,iVBORw0K'')) (constructor None 0)"

text \<open>A store that holds five timestamps, one minute apart, and six clicks on the
  regenerate button, one minute apart.\<close>

definition five_used :: app where
  "five_used = fresh (Some (JSON_stringify (map JNumber [0, 60000, 120000, 180000, 240000])))"

definition six_clicks :: "event list" where
  "six_clicks =
     [GenerationClick Regenerate 0 0 env_image,
      GenerationClick Regenerate 60000 60000 env_image,
      GenerationClick Regenerate 120000 120000 env_image,
      GenerationClick Regenerate 180000 180000 env_image,
      GenerationClick Regenerate 240000 240000 env_image,
      GenerationClick Regenerate 300000 300000 env_image]"




section \<open>Loading the log\<close>

subsection \<open>Sorting and filtering a list of numbers\<close>




subsection \<open>Loading any stored value\<close>

lemma load_persists:
  "store (loadRateLimitData now s) =
     Some (JSON_stringify (generationTimestamps (loadRateLimitData now s)))"
  by (simp add: loadRateLimitData_def saveTimestamps_def emit_def Let_def)

lemma load_trace:
  "trace (loadRateLimitData now s) =
     trace s @ [SetItem (JSON_stringify (generationTimestamps (loadRateLimitData now s)))]"
  by (simp add: loadRateLimitData_def saveTimestamps_def emit_def Let_def)

lemma load_log:
  "generationTimestamps (loadRateLimitData now s) =
     (case store s of
        None \<Rightarrow> []
      | Some d \<Rightarrow> (case try_block now d of Inl e \<Rightarrow> [] | Inr v \<Rightarrow> v))"
  by (cases "store s"; cases "the (store s)")
     (simp_all add: loadRateLimitData_def saveTimestamps_def emit_def Let_def try_block_def)

lemma filter_js_Inr:
  "filter_js p xs = Inr ys \<Longrightarrow> ys = filter (\<lambda>x. p x = Inr True) xs"
proof (induction xs arbitrary: ys)
  case Nil
  then show ?case by simp
next
  case (Cons x xs)
  from Cons.prems obtain b zs where b: "p x = Inr b" and zs: "filter_js p xs = Inr zs"
    and ys: "ys = (if b then x # zs else zs)"
    by (auto split: sum.splits)
  from Cons.IH [OF zs] b ys show ?case by simp
qed

lemma insert_js_Inr:
  "insert_js x ys = Inr zs \<Longrightarrow> set zs = insert x (set ys) \<and> length zs = Suc (length ys)"
proof (induction ys arbitrary: zs)
  case Nil
  then show ?case by auto
next
  case (Cons y ys)
  from Cons.prems obtain c where c: "SortCompare x y = Inr c"
    by (auto split: sum.splits)
  show ?case
  proof (cases "c \<le> 0")
    case True
    with Cons.prems c show ?thesis by auto
  next
    case False
    with Cons.prems c obtain ws where ws: "insert_js x ys = Inr ws" and zs: "zs = y # ws"
      by (auto split: sum.splits)
    from Cons.IH [OF ws] zs show ?thesis by auto
  qed
qed

lemma sort_js_Inr: "sort_js xs = Inr ys \<Longrightarrow> set ys = set xs \<and> length ys = length xs"
proof (induction xs arbitrary: ys)
  case Nil
  then show ?case by simp
next
  case (Cons x xs)
  from Cons.prems obtain zs where zs: "sort_js xs = Inr zs" and ins: "insert_js x zs = Inr ys"
    by (auto split: sum.splits)
  from Cons.IH [OF zs] insert_js_Inr [OF ins] show ?case by simp
qed

lemma SortCompare_coerces: "coerces x \<Longrightarrow> coerces y \<Longrightarrow> \<exists>c. SortCompare x y = Inr c"
  by (auto simp: coerces_def SortCompare_def js_minus_def split: sum.splits number.splits)

lemma insert_js_coerces:
  "coerces x \<Longrightarrow> list_all coerces ys \<Longrightarrow> \<exists>zs. insert_js x ys = Inr zs"
proof (induction ys)
  case Nil
  then show ?case by simp
next
  case (Cons y ys)
  then obtain c zs where "SortCompare x y = Inr c" "insert_js x ys = Inr zs"
    using SortCompare_coerces [of x y] by auto
  then show ?case by simp
qed

lemma sort_js_coerces: "list_all coerces xs \<Longrightarrow> \<exists>ys. sort_js xs = Inr ys"
proof (induction xs)
  case Nil
  then show ?case by simp
next
  case (Cons x xs)
  then obtain ys where ys: "sort_js xs = Inr ys" by auto
  with Cons.prems have "list_all coerces ys"
    using sort_js_Inr [OF ys] by (simp add: list_all_iff)
  with Cons.prems obtain zs where "insert_js x ys = Inr zs"
    using insert_js_coerces [of x ys] by auto
  with ys show ?case by simp
qed

lemma within_window_coerces: "coerces x \<Longrightarrow> \<exists>b. within_window now x = Inr b"
  by (auto simp: coerces_def within_window_def js_minus_def split: sum.splits number.splits)

lemma filter_js_coerces: "list_all coerces xs \<Longrightarrow> \<exists>ys. filter_js (within_window now) xs = Inr ys"
proof (induction xs)
  case Nil
  then show ?case by simp
next
  case (Cons x xs)
  then obtain b ys where "within_window now x = Inr b" "filter_js (within_window now) xs = Inr ys"
    using within_window_coerces [of x now] by auto
  then show ?case by simp
qed

lemma within_window_True:
  "within_window now x = Inr True \<longleftrightarrow>
     (\<exists>n. ToNumber x = Inr (Finite n) \<and> now - n < RATE_LIMIT_WINDOW_MS) \<or>
     ToNumber x = Inr PosInfinity"
proof (cases "ToNumber x")
  case (Inl e)
  then show ?thesis by (simp add: within_window_def js_minus_def)
next
  case (Inr v)
  then show ?thesis by (cases v) (simp_all add: within_window_def js_minus_def)
qed

lemma try_block_array:
  assumes "try_block now (Encoding (ArrayValue xs)) = Inr ys"
  shows "set ys = {x \<in> set xs. within_window now x = Inr True} \<and> length ys \<le> length xs"
proof -
  from assms obtain zs where z: "sort_js xs = Inr zs"
    and f: "filter_js (within_window now) zs = Inr ys"
    by (auto simp: try_block_def split: sum.splits)
  from sort_js_Inr [OF z] filter_js_Inr [OF f] show ?thesis
    by (auto intro: order_trans [OF length_filter_le])
qed

lemma try_block_coerces:
  assumes "list_all coerces xs"
  shows "\<exists>ys. try_block now (Encoding (ArrayValue xs)) = Inr ys"
proof -
  from assms obtain zs where z: "sort_js xs = Inr zs"
    using sort_js_coerces by blast
  with assms have "list_all coerces zs"
    using sort_js_Inr [OF z] by (simp add: list_all_iff)
  then obtain ys where "filter_js (within_window now) zs = Inr ys"
    using filter_js_coerces by blast
  with z show ?thesis by (simp add: try_block_def)
qed

lemma load_array_subset:
  assumes "store s = Some (Encoding (ArrayValue xs))"
  shows "set (generationTimestamps (loadRateLimitData now s)) \<subseteq>
           {x \<in> set xs. within_window now x = Inr True} \<and>
         length (generationTimestamps (loadRateLimitData now s)) \<le> length xs"
proof (cases "try_block now (Encoding (ArrayValue xs))")
  case (Inl e)
  with assms show ?thesis by (simp add: load_log)
next
  case (Inr ys)
  with assms try_block_array [OF Inr] show ?thesis by (simp add: load_log)
qed

lemma load_array_coerces:
  assumes "store s = Some (Encoding (ArrayValue xs))" and "list_all coerces xs"
  shows "set (generationTimestamps (loadRateLimitData now s)) =
           {x \<in> set xs. within_window now x = Inr True}"
proof -
  from assms(2) obtain ys where ys: "try_block now (Encoding (ArrayValue xs)) = Inr ys"
    using try_block_coerces by blast
  with assms(1) try_block_array [OF ys] show ?thesis by (simp add: load_log)
qed

lemmas run_load =
  load_log load_persists load_trace try_block_def SortCompare_def js_minus_def
  within_window_def JSON_stringify_def RATE_LIMIT_WINDOW_MS_def

subsection \<open>Ascending order\<close>














text \<open>
  Claim C8, as amended. \<^verbatim>\<open>loadRateLimitData\<close> is total: every expression of it
  that can throw stands in the \<^verbatim>\<open>try\<close> block, and an exception of the block
  leaves the log empty. When the store holds nothing, the empty string, a string that
  does not parse, or a value that is not an array, the log is empty. When it holds an
  array, no element is checked to be a number: an element stays only if its coercion is
  a number \<open>n\<close> with \<open>now - n < RATE_LIMIT_WINDOW_MS\<close>, and when no coercion
  throws, every such element stays (an infinite number counts as such an \<open>n\<close> when
  it is positive). In every case the log that results is written back to the store, an
  infinite number as \<^verbatim>\<open>null\<close>.
\<close>

theorem load_fails_soft:
  "(store s = None \<or> store s = Some EmptyString \<or> store s = Some Unparseable \<or>
    store s = Some (Encoding OtherValue) \<or>
    (\<exists>d e. store s = Some d \<and> try_block now d = Inl e)
      \<longrightarrow> generationTimestamps (loadRateLimitData now s) = []) \<and>
   (\<forall>xs. store s = Some (Encoding (ArrayValue xs)) \<longrightarrow>
      set (generationTimestamps (loadRateLimitData now s)) \<subseteq>
        {x \<in> set xs. (\<exists>n. ToNumber x = Inr (Finite n) \<and> now - n < RATE_LIMIT_WINDOW_MS) \<or>
                         ToNumber x = Inr PosInfinity} \<and>
      (list_all coerces xs \<longrightarrow>
         set (generationTimestamps (loadRateLimitData now s)) =
           {x \<in> set xs. (\<exists>n. ToNumber x = Inr (Finite n) \<and> now - n < RATE_LIMIT_WINDOW_MS) \<or>
                         ToNumber x = Inr PosInfinity})) \<and>
   store (loadRateLimitData now s) =
     Some (JSON_stringify (generationTimestamps (loadRateLimitData now s))) \<and>
   trace (loadRateLimitData now s) =
     trace s @ [SetItem (JSON_stringify (generationTimestamps (loadRateLimitData now s)))] \<and>
   store (loadRateLimitData now s) =
     Some (Encoding (ArrayValue (map stringify_elem (generationTimestamps (loadRateLimitData now s)))))"
proof (intro conjI allI impI)
  assume "store s = None \<or> store s = Some EmptyString \<or> store s = Some Unparseable \<or>
    store s = Some (Encoding OtherValue) \<or>
    (\<exists>d e. store s = Some d \<and> try_block now d = Inl e)"
  then show "generationTimestamps (loadRateLimitData now s) = []"
    by (auto simp: load_log try_block_def)
next
  fix xs assume "store s = Some (Encoding (ArrayValue xs))"
  from load_array_subset [OF this]
  show "set (generationTimestamps (loadRateLimitData now s)) \<subseteq>
        {x \<in> set xs. (\<exists>n. ToNumber x = Inr (Finite n) \<and> now - n < RATE_LIMIT_WINDOW_MS) \<or>
                         ToNumber x = Inr PosInfinity}"
    by (simp add: within_window_True)
next
  fix xs assume "store s = Some (Encoding (ArrayValue xs))" "list_all coerces xs"
  from load_array_coerces [OF this]
  show "set (generationTimestamps (loadRateLimitData now s)) =
        {x \<in> set xs. (\<exists>n. ToNumber x = Inr (Finite n) \<and> now - n < RATE_LIMIT_WINDOW_MS) \<or>
                         ToNumber x = Inr PosInfinity}"
    by (simp add: within_window_True)
qed (simp_all add: load_persists load_trace JSON_stringify_def)

theorem load_fails_soft_witness:
  "store (fresh (Some Unparseable)) = Some Unparseable \<and>
   generationTimestamps (loadRateLimitData 1762000000001 (fresh (Some Unparseable))) = [] \<and>
   store (loadRateLimitData 1762000000001 (fresh (Some Unparseable))) = Some (JSON_stringify []) \<and>
   store (fresh (Some (Encoding (ArrayValue [JNumber 1762000000000, JBool True])))) =
     Some (Encoding (ArrayValue [JNumber 1762000000000, JBool True])) \<and>
   list_all coerces [JNumber 1762000000000, JBool True] \<and>
   set (generationTimestamps (loadRateLimitData 1762000000001
          (fresh (Some (Encoding (ArrayValue [JNumber 1762000000000, JBool True])))))) =
     {JNumber 1762000000000}"
proof -
  let ?s = "fresh (Some Unparseable)"
  let ?xs = "[JNumber 1762000000000, JBool True]"
  let ?t = "fresh (Some (Encoding (ArrayValue ?xs)))"
  note soft = load_fails_soft [where s = ?s and now = 1762000000001]
  note list = load_fails_soft [where s = ?t and now = 1762000000001]
  have s: "store ?s = Some Unparseable" by (simp add: fresh_def)
  have t: "store ?t = Some (Encoding (ArrayValue ?xs))" by (simp add: fresh_def)
  have c: "list_all coerces ?xs" by (simp add: coerces_def)
  from soft s have empty: "generationTimestamps (loadRateLimitData 1762000000001 ?s) = []"
    by simp
  from soft have "store (loadRateLimitData 1762000000001 ?s) =
      Some (JSON_stringify (generationTimestamps (loadRateLimitData 1762000000001 ?s)))"
    by blast
  with empty have stored: "store (loadRateLimitData 1762000000001 ?s) = Some (JSON_stringify [])"
    by simp
  from list have "\<forall>xs. store ?t = Some (Encoding (ArrayValue xs)) \<longrightarrow>
      set (generationTimestamps (loadRateLimitData 1762000000001 ?t)) \<subseteq>
        {x \<in> set xs. (\<exists>n. ToNumber x = Inr (Finite n) \<and> 1762000000001 - n < RATE_LIMIT_WINDOW_MS) \<or>
                         ToNumber x = Inr PosInfinity} \<and>
      (list_all coerces xs \<longrightarrow>
         set (generationTimestamps (loadRateLimitData 1762000000001 ?t)) =
           {x \<in> set xs. (\<exists>n. ToNumber x = Inr (Finite n) \<and> 1762000000001 - n < RATE_LIMIT_WINDOW_MS) \<or>
                         ToNumber x = Inr PosInfinity})"
    by (rule conjunct1 [OF conjunct2])
  with t c have "set (generationTimestamps (loadRateLimitData 1762000000001 ?t)) =
      {x \<in> set ?xs. (\<exists>n. ToNumber x = Inr (Finite n) \<and> 1762000000001 - n < RATE_LIMIT_WINDOW_MS) \<or>
                          ToNumber x = Inr PosInfinity}"
    by blast
  also have "\<dots> = {JNumber 1762000000000}"
    by (auto simp: RATE_LIMIT_WINDOW_MS_def)
  finally show ?thesis using s t c empty stored by simp
qed

text \<open>
  Claim C8 as stated fails: a stored array that is not a list of numbers is not treated
  as the empty log. With \<^verbatim>\<open>[1762000000000, null]\<close> in the store the log keeps
  the number, and with \<^verbatim>\<open>["1762000000000"]\<close> the log keeps the string.
\<close>

theorem load_keeps_list_with_null:
  "generationTimestamps
     (constructor (Some (Encoding (ArrayValue [JNumber 1762000000000, JNull]))) 1762000000001)
     = [JNumber 1762000000000] \<and>
   generationTimestamps
     (constructor (Some (Encoding (ArrayValue [JOther (Inr (Finite 1762000000000))]))) 1762000000001)
     = [JOther (Inr (Finite 1762000000000))]"
  by (simp add: constructor_def fresh_def load_log try_block_def SortCompare_def js_minus_def
      within_window_def RATE_LIMIT_WINDOW_MS_def)

section \<open>The retry loop\<close>

subsection \<open>What each method leaves alone\<close>

lemma emit_simps [simp]:
  "trace (emit a s) = trace s @ [a]"
  "store (emit a s) = store s"
  "uploadedBase64Image (emit a s) = uploadedBase64Image s"
  "failureCount (emit a s) = failureCount s"
  "successfulImageData (emit a s) = successfulImageData s"
  "isGenerationTerminated (emit a s) = isGenerationTerminated s"
  "isCartoonMode (emit a s) = isCartoonMode s"
  "generationTimestamps (emit a s) = generationTimestamps s"
  "status (emit a s) = status s"
  by (simp_all add: emit_def)

lemma updateUIState_simps [simp]:
  "trace (updateUIState st b s) = trace s @ [UpdateUIState st b]"
  "store (updateUIState st b s) = store s"
  "uploadedBase64Image (updateUIState st b s) = uploadedBase64Image s"
  "failureCount (updateUIState st b s) = failureCount s"
  "successfulImageData (updateUIState st b s) = successfulImageData s"
  "isGenerationTerminated (updateUIState st b s) = isGenerationTerminated s"
  "isCartoonMode (updateUIState st b s) = isCartoonMode s"
  "generationTimestamps (updateUIState st b s) = generationTimestamps s"
  "status (updateUIState st b s) = st"
  by (simp_all add: updateUIState_def)

lemma saveTimestamps_simps [simp]:
  "trace (saveTimestamps s) = trace s @ [SetItem (JSON_stringify (generationTimestamps s))]"
  "store (saveTimestamps s) = Some (JSON_stringify (generationTimestamps s))"
  "uploadedBase64Image (saveTimestamps s) = uploadedBase64Image s"
  "failureCount (saveTimestamps s) = failureCount s"
  "successfulImageData (saveTimestamps s) = successfulImageData s"
  "isGenerationTerminated (saveTimestamps s) = isGenerationTerminated s"
  "isCartoonMode (saveTimestamps s) = isCartoonMode s"
  "generationTimestamps (saveTimestamps s) = generationTimestamps s"
  "status (saveTimestamps s) = status s"
  by (simp_all add: saveTimestamps_def)

lemma load_frame [simp]:
  "uploadedBase64Image (loadRateLimitData now s) = uploadedBase64Image s"
  "failureCount (loadRateLimitData now s) = failureCount s"
  "successfulImageData (loadRateLimitData now s) = successfulImageData s"
  "isGenerationTerminated (loadRateLimitData now s) = isGenerationTerminated s"
  "isCartoonMode (loadRateLimitData now s) = isCartoonMode s"
  "status (loadRateLimitData now s) = status s"
  by (simp_all add: loadRateLimitData_def Let_def)

lemma after_loop_simps [simp]:
  "trace (fst (after_loop r ok d s)) =
     trace s @ [if ok then UpdateUIState Success False else UpdateUIState Failure r]"
  "store (fst (after_loop r ok d s)) = store s"
  "uploadedBase64Image (fst (after_loop r ok d s)) = uploadedBase64Image s"
  "failureCount (fst (after_loop r ok d s)) =
     (if \<not> ok \<and> \<not> r then failureCount s + 1 else failureCount s)"
  "successfulImageData (fst (after_loop r ok d s)) = (if ok then d else successfulImageData s)"
  "isGenerationTerminated (fst (after_loop r ok d s)) = isGenerationTerminated s"
  "isCartoonMode (fst (after_loop r ok d s)) = isCartoonMode s"
  "generationTimestamps (fst (after_loop r ok d s)) = generationTimestamps s"
  "status (fst (after_loop r ok d s)) = (if ok then Success else Failure)"
  "snd (after_loop r ok d s) = \<lparr>success = ok, base64Data = d, terminated = False\<rparr>"
  by (simp_all add: after_loop_def Let_def)

subsection \<open>A rule for the loop\<close>

lemma attempts_rule:
  assumes "I n s"
    and continue: "\<And>n s s'. n \<le> MAX_ATTEMPTS \<Longrightarrow> I n s \<Longrightarrow> attempt (env n) n s = Continue s'
                     \<Longrightarrow> I (n + 1) s'"
    and break: "\<And>n s d s'. n \<le> MAX_ATTEMPTS \<Longrightarrow> I n s \<Longrightarrow> attempt (env n) n s = Break d s'
                     \<Longrightarrow> Q (after_loop r True d s')"
    and return: "\<And>n s s' res. n \<le> MAX_ATTEMPTS \<Longrightarrow> I n s \<Longrightarrow> attempt (env n) n s = Return s' res
                     \<Longrightarrow> Q (s', res)"
    and exhausted: "\<And>n s. \<not> n \<le> MAX_ATTEMPTS \<Longrightarrow> I n s \<Longrightarrow> Q (after_loop r False None s)"
  shows "Q (attempts r env n s)"
  using assms(1)
proof (induction k \<equiv> "MAX_ATTEMPTS + 1 - n" arbitrary: n s)
  case 0
  then have "\<not> n \<le> MAX_ATTEMPTS" by simp
  with "0.prems" exhausted show ?case by (simp add: attempts.simps [of r env n s])
next
  case (Suc k)
  then have le: "n \<le> MAX_ATTEMPTS" by simp
  show ?case
  proof (cases "attempt (env n) n s")
    case (Continue s')
    from continue [OF le Suc.prems Continue] have "I (n + 1) s'" .
    moreover from Suc.hyps(2) have "k = MAX_ATTEMPTS + 1 - (n + 1)" by simp
    ultimately have "Q (attempts r env (n + 1) s')" by (rule Suc.hyps(1) [rotated])
    with le Continue show ?thesis by (simp add: attempts.simps [of r env n s])
  next
    case (Break d s')
    from break [OF le Suc.prems Break] le Break show ?thesis
      by (simp add: attempts.simps [of r env n s])
  next
    case (Return s' res)
    from return [OF le Suc.prems Return] le Return show ?thesis
      by (simp add: attempts.simps [of r env n s])
  qed
qed

subsection \<open>Remote calls\<close>

lemma handle_calls:
  "filter is_generate (trace (handle h s)) = filter is_generate (trace s)"
  "filter is_verify (trace (handle h s)) = filter is_verify (trace s)"
  by (cases h; simp add: resetUI_def handleFile_def load_trace split: upload.splits)+

lemma run_handlers_calls:
  "filter is_generate (trace (run_handlers hs s)) = filter is_generate (trace s)"
  "filter is_verify (trace (run_handlers hs s)) = filter is_verify (trace s)"
  by (induction hs arbitrary: s) (simp_all add: handle_calls)

lemma attempt_generate_calls:
  "attempt e n s = Continue s' \<Longrightarrow> generate_calls s' \<le> generate_calls s + 1"
  "attempt e n s = Break d s' \<Longrightarrow> generate_calls s' \<le> generate_calls s + 1"
  "attempt e n s = Return s' res \<Longrightarrow> generate_calls s' = generate_calls s"
  by (auto simp: attempt_def Let_def generate_calls_def run_handlers_calls
      split: if_splits sum.splits)

lemma attempts_generate_calls:
  "generate_calls (fst (attempts r env n s)) \<le> generate_calls s + (MAX_ATTEMPTS + 1 - n)"
proof -
  define k where "k = generate_calls s + (MAX_ATTEMPTS + 1 - n)"
  have "generate_calls (fst (attempts r env n s)) \<le> k"
  proof (rule attempts_rule [where I = "\<lambda>n s. generate_calls s + (MAX_ATTEMPTS + 1 - n) \<le> k"
        and Q = "\<lambda>x. generate_calls (fst x) \<le> k"])
    show "generate_calls s + (MAX_ATTEMPTS + 1 - n) \<le> k" by (simp add: k_def)
  next
    fix n s s' assume "n \<le> MAX_ATTEMPTS" "generate_calls s + (MAX_ATTEMPTS + 1 - n) \<le> k"
      "attempt (env n) n s = Continue s'"
    with attempt_generate_calls(1) [of "env n" n s s']
    show "generate_calls s' + (MAX_ATTEMPTS + 1 - (n + 1)) \<le> k" by simp
  next
    fix n s d s' assume "n \<le> MAX_ATTEMPTS" "generate_calls s + (MAX_ATTEMPTS + 1 - n) \<le> k"
      "attempt (env n) n s = Break d s'"
    with attempt_generate_calls(2) [of "env n" n s d s']
    show "generate_calls (fst (after_loop r True d s')) \<le> k" by (simp add: generate_calls_def)
  next
    fix n s s' res assume "n \<le> MAX_ATTEMPTS" "generate_calls s + (MAX_ATTEMPTS + 1 - n) \<le> k"
      "attempt (env n) n s = Return s' res"
    with attempt_generate_calls(3) [of "env n" n s s' res]
    show "generate_calls (fst (s', res)) \<le> k" by simp
  next
    fix n s assume "\<not> n \<le> MAX_ATTEMPTS" "generate_calls s + (MAX_ATTEMPTS + 1 - n) \<le> k"
    then show "generate_calls (fst (after_loop r False None s)) \<le> k"
      by (simp add: generate_calls_def)
  qed
  then show ?thesis by (simp add: k_def)
qed

lemma handle_keeps_cartoon: "keeps_cartoon h \<Longrightarrow> isCartoonMode s \<Longrightarrow> isCartoonMode (handle h s)"
  by (cases h) (simp_all add: handleFile_def split: upload.splits)

lemma run_handlers_keeps_cartoon:
  "list_all keeps_cartoon hs \<Longrightarrow> isCartoonMode s \<Longrightarrow> isCartoonMode (run_handlers hs s)"
  by (induction hs arbitrary: s) (simp_all add: handle_keeps_cartoon)

lemma attempt_cartoon:
  assumes "isCartoonMode s" and "list_all keeps_cartoon (during_generate e)"
  shows "attempt e n s = Continue s' \<Longrightarrow> isCartoonMode s' \<and> verify_calls s' = verify_calls s"
    and "attempt e n s = Break d s' \<Longrightarrow> verify_calls s' = verify_calls s"
    and "attempt e n s = Return s' res \<Longrightarrow> verify_calls s' = verify_calls s"
  using assms run_handlers_keeps_cartoon [of "during_generate e" "emit (GenerateContent n) s"]
  by (auto simp: attempt_def Let_def verify_calls_def run_handlers_calls
      split: if_splits sum.splits)

lemma attempts_cartoon:
  assumes "isCartoonMode s" and "stays_cartoon env" and "1 \<le> n"
  shows "verify_calls (fst (attempts r env n s)) = verify_calls s"
proof (rule attempts_rule [where I = "\<lambda>n t. 1 \<le> n \<and> isCartoonMode t \<and> verify_calls t = verify_calls s"
      and Q = "\<lambda>x. verify_calls (fst x) = verify_calls s"])
  from assms show "1 \<le> n \<and> isCartoonMode s \<and> verify_calls s = verify_calls s" by simp
next
  fix n t t' assume n: "n \<le> MAX_ATTEMPTS"
    and i: "1 \<le> n \<and> isCartoonMode t \<and> verify_calls t = verify_calls s"
    and a: "attempt (env n) n t = Continue t'"
  from n i assms(2) have "list_all keeps_cartoon (during_generate (env n))"
    by (simp add: stays_cartoon_def)
  from attempt_cartoon(1) [OF _ this a] i
  show "1 \<le> n + 1 \<and> isCartoonMode t' \<and> verify_calls t' = verify_calls s" by simp
next
  fix n t d t' assume n: "n \<le> MAX_ATTEMPTS"
    and i: "1 \<le> n \<and> isCartoonMode t \<and> verify_calls t = verify_calls s"
    and a: "attempt (env n) n t = Break d t'"
  from n i assms(2) have "list_all keeps_cartoon (during_generate (env n))"
    by (simp add: stays_cartoon_def)
  from attempt_cartoon(2) [OF _ this a] i
  show "verify_calls (fst (after_loop r True d t')) = verify_calls s"
    by (simp add: verify_calls_def)
next
  fix n t t' res assume n: "n \<le> MAX_ATTEMPTS"
    and i: "1 \<le> n \<and> isCartoonMode t \<and> verify_calls t = verify_calls s"
    and a: "attempt (env n) n t = Return t' res"
  from n i assms(2) have "list_all keeps_cartoon (during_generate (env n))"
    by (simp add: stays_cartoon_def)
  from attempt_cartoon(3) [OF _ this a] i
  show "verify_calls (fst (t', res)) = verify_calls s" by simp
next
  fix n t assume "1 \<le> n \<and> isCartoonMode t \<and> verify_calls t = verify_calls s"
  then show "verify_calls (fst (after_loop r False None t)) = verify_calls s"
    by (simp add: verify_calls_def)
qed

text \<open>
  Claim C5. One run of \<^verbatim>\<open>generateSingleView\<close> adds at most \<open>MAX_ATTEMPTS\<close>
  calls of the generation capability to the trace, whatever the replies and the handlers
  that run meanwhile. When cartoon mode is on at the start and no handler switches it
  off while a generation call is awaited, the run adds no call of the validation
  capability.
\<close>

theorem retry_loop_call_bounds:
  "generate_calls (fst (generateSingleView r env s)) \<le> generate_calls s + MAX_ATTEMPTS \<and>
   (isCartoonMode s \<and> stays_cartoon env \<longrightarrow>
      verify_calls (fst (generateSingleView r env s)) = verify_calls s)"
proof (intro conjI impI)
  from attempts_generate_calls [of r env 1 "updateUIState Loading r s"]
  show "generate_calls (fst (generateSingleView r env s)) \<le> generate_calls s + MAX_ATTEMPTS"
    by (simp add: generateSingleView_def generate_calls_def)
next
  assume "isCartoonMode s \<and> stays_cartoon env"
  with attempts_cartoon [of "updateUIState Loading r s" env 1 r]
  show "verify_calls (fst (generateSingleView r env s)) = verify_calls s"
    by (simp add: generateSingleView_def verify_calls_def)
qed

lemmas run_session =
  generateSingleView_def attempts.simps attempt_def after_loop_def MAX_ATTEMPTS_def
  updateUIState_def emit_def verifyImageMatch_def Let_def

theorem retry_loop_call_bounds_witness:
  "isCartoonMode ((fresh None)\<lparr>isCartoonMode := True\<rparr>) \<and> stays_cartoon env_image \<and>
   generate_calls (fst (generateSingleView False env_image ((fresh None)\<lparr>isCartoonMode := True\<rparr>))) = 1 \<and>
   verify_calls (fst (generateSingleView False env_image ((fresh None)\<lparr>isCartoonMode := True\<rparr>))) = 0 \<and>
   generate_calls (fst (generateSingleView False env_failing (fresh None))) = 5"
proof -
  let ?s = "(fresh None)\<lparr>isCartoonMode := True\<rparr>"
  have c: "isCartoonMode ?s" and e: "stays_cartoon env_image"
    by (simp_all add: stays_cartoon_def env_image_def)
  have t: "trace ?s = []" by (simp add: fresh_def)
  have g: "generate_calls (fst (generateSingleView False env_image ?s)) = 1"
    by (simp add: run_session generate_calls_def env_image_def fresh_def)
  have f: "generate_calls (fst (generateSingleView False env_failing (fresh None))) = 5"
    by (simp add: run_session generate_calls_def env_failing_def fresh_def)
  from retry_loop_call_bounds [of False env_image ?s] c e t
  have "verify_calls (fst (generateSingleView False env_image ?s)) = 0"
    by (simp add: verify_calls_def)
  with c e g f show ?thesis by simp
qed

lemma attempts_terminated:
  "isGenerationTerminated s \<Longrightarrow> n \<le> MAX_ATTEMPTS \<Longrightarrow>
     attempts r env n s =
       (updateUIState Terminating False s,
        \<lparr>success = False, base64Data = None, terminated = True\<rparr>)"
  by (subst attempts.simps) (simp add: attempt_def)

text \<open>
  Claim C6. When \<open>isGenerationTerminated\<close> is set as \<^verbatim>\<open>generateSingleView\<close>
  starts, it returns the terminated result (no success, no data, terminated), its only
  effects are the two status updates (loading, then terminating), and it calls neither
  remote capability.
\<close>

theorem cancelled_before_first_attempt:
  "isGenerationTerminated s \<Longrightarrow>
     generateSingleView r env s =
       (updateUIState Terminating False (updateUIState Loading r s),
        \<lparr>success = False, base64Data = None, terminated = True\<rparr>) \<and>
     trace (fst (generateSingleView r env s)) =
       trace s @ [UpdateUIState Loading r, UpdateUIState Terminating False] \<and>
     generate_calls (fst (generateSingleView r env s)) = generate_calls s \<and>
     verify_calls (fst (generateSingleView r env s)) = verify_calls s"
  by (simp add: generateSingleView_def attempts_terminated MAX_ATTEMPTS_def
      generate_calls_def verify_calls_def)

theorem cancelled_before_first_attempt_witness:
  "isGenerationTerminated ((fresh None)\<lparr>isGenerationTerminated := True\<rparr>) \<and>
   snd (generateSingleView True env_image ((fresh None)\<lparr>isGenerationTerminated := True\<rparr>)) =
     \<lparr>success = False, base64Data = None, terminated = True\<rparr> \<and>
   trace (fst (generateSingleView True env_image ((fresh None)\<lparr>isGenerationTerminated := True\<rparr>))) =
     [UpdateUIState Loading True, UpdateUIState Terminating False]"
  using cancelled_before_first_attempt
    [of "(fresh None)\<lparr>isGenerationTerminated := True\<rparr>" True env_image]
  by (simp add: fresh_def)

lemma attempt_shape:
  "attempt e n s = Break d s' \<Longrightarrow> truthy d"
  "attempt e n s = Return s' res \<Longrightarrow> res = \<lparr>success = False, base64Data = None, terminated = True\<rparr>"
  by (auto simp: attempt_def Let_def split: if_splits sum.splits)

lemma truthy_iff: "truthy d \<longleftrightarrow> (\<exists>v. d = Some v \<and> v \<noteq> [])"
  by (cases d) simp_all

text \<open>
  Claim C10. The result of \<^verbatim>\<open>generateSingleView\<close> has one of three shapes: a
  terminated result is not a success and carries no data, and a result is a success
  exactly when it carries a non-empty image payload.
\<close>

theorem result_shape:
  "(terminated (snd (generateSingleView r env s)) \<longrightarrow>
      \<not> success (snd (generateSingleView r env s)) \<and>
      base64Data (snd (generateSingleView r env s)) = None) \<and>
   (success (snd (generateSingleView r env s)) \<longleftrightarrow>
      (\<exists>v. base64Data (snd (generateSingleView r env s)) = Some v \<and> v \<noteq> []))"
  unfolding generateSingleView_def
proof (rule attempts_rule [where I = "\<lambda>n s. True"])
  fix d s' n t assume "attempt (env n) n t = Break d s'"
  from attempt_shape(1) [OF this]
  show "(terminated (snd (after_loop r True d s')) \<longrightarrow>
      \<not> success (snd (after_loop r True d s')) \<and> base64Data (snd (after_loop r True d s')) = None) \<and>
     (success (snd (after_loop r True d s')) \<longleftrightarrow>
      (\<exists>v. base64Data (snd (after_loop r True d s')) = Some v \<and> v \<noteq> []))"
    by (simp add: truthy_iff)
next
  fix s' res n t assume "attempt (env n) n t = Return s' res"
  from attempt_shape(2) [OF this]
  show "(terminated (snd (s', res)) \<longrightarrow> \<not> success (snd (s', res)) \<and> base64Data (snd (s', res)) = None) \<and>
     (success (snd (s', res)) \<longleftrightarrow> (\<exists>v. base64Data (snd (s', res)) = Some v \<and> v \<noteq> []))"
    by simp
qed simp_all

theorem result_shape_witness:
  "snd (generateSingleView False env_image (fresh None)) =
     \<lparr>success = True, base64Data = Some ''/9j/4AAQ'', terminated = False\<rparr> \<and>
   snd (generateSingleView False env_cancelled (fresh None)) =
     \<lparr>success = False, base64Data = None, terminated = True\<rparr> \<and>
   snd (generateSingleView False env_failing (fresh None)) =
     \<lparr>success = False, base64Data = None, terminated = False\<rparr>"
proof -
  have a: "snd (generateSingleView False env_image (fresh None)) =
     \<lparr>success = True, base64Data = Some ''/9j/4AAQ'', terminated = False\<rparr>"
    by (simp add: run_session env_image_def fresh_def)
  have b: "snd (generateSingleView False env_cancelled (fresh None)) =
     \<lparr>success = False, base64Data = None, terminated = True\<rparr>"
    by (simp add: run_session env_cancelled_def fresh_def)
  have c: "snd (generateSingleView False env_failing (fresh None)) =
     \<lparr>success = False, base64Data = None, terminated = False\<rparr>"
    by (simp add: run_session env_failing_def fresh_def)
  from a b c result_shape [of False env_image "fresh None"]
    result_shape [of False env_cancelled "fresh None"]
  show ?thesis by simp
qed

section \<open>Admission\<close>

subsection \<open>The trace only grows\<close>

lemma handle_prefix: "prefix (trace s) (trace (handle h s))"
  by (cases h) (simp_all add: resetUI_def handleFile_def load_trace split: upload.splits)

lemma run_handlers_prefix: "prefix (trace s) (trace (run_handlers hs s))"
proof (induction hs arbitrary: s)
  case Nil
  then show ?case by simp
next
  case (Cons h hs)
  from handle_prefix [of s h] Cons.IH [of "handle h s"] show ?case
    by (auto intro: prefix_order.trans)
qed

lemma run_handlers_after_emit: "prefix (trace s) (trace (run_handlers hs (emit a s)))"
  using run_handlers_prefix [of "emit a s" hs] by (auto elim: prefix_order.trans [rotated])

lemma attempt_prefix:
  "attempt e n s = Continue s' \<Longrightarrow> prefix (trace s) (trace s')"
  "attempt e n s = Break d s' \<Longrightarrow> prefix (trace s) (trace s')"
  "attempt e n s = Return s' res \<Longrightarrow> prefix (trace s) (trace s')"
proof -
  let ?s1 = "run_handlers (during_generate e) (emit (GenerateContent n) s)"
  let ?s2 = "run_handlers (during_verify e) (emit VerifyContent ?s1)"
  have p1: "prefix (trace s) (trace ?s1)" by (rule run_handlers_after_emit)
  have "prefix (trace ?s1) (trace ?s2)" by (rule run_handlers_after_emit)
  with p1 have p2: "prefix (trace s) (trace ?s2)" by (rule prefix_order.trans)
  show "attempt e n s = Continue s' \<Longrightarrow> prefix (trace s) (trace s')"
    using p1 p2 by (auto simp: attempt_def Let_def split: if_splits sum.splits)
  show "attempt e n s = Break d s' \<Longrightarrow> prefix (trace s) (trace s')"
    using p1 p2 by (auto simp: attempt_def Let_def split: if_splits sum.splits)
  show "attempt e n s = Return s' res \<Longrightarrow> prefix (trace s) (trace s')"
    by (auto simp: attempt_def Let_def split: if_splits sum.splits)
qed

lemma attempts_prefix: "prefix (trace s) (trace (fst (attempts r env n s)))"
proof (rule attempts_rule [where I = "\<lambda>n t. prefix (trace s) (trace t)"
      and Q = "\<lambda>x. prefix (trace s) (trace (fst x))"])
  show "prefix (trace s) (trace s)" by simp
next
  fix n t t' assume "prefix (trace s) (trace t)" "attempt (env n) n t = Continue t'"
  with attempt_prefix(1) show "prefix (trace s) (trace t')" by (blast intro: prefix_order.trans)
next
  fix n t d t' assume "prefix (trace s) (trace t)" "attempt (env n) n t = Break d t'"
  with attempt_prefix(2) have "prefix (trace s) (trace t')" by (blast intro: prefix_order.trans)
  then show "prefix (trace s) (trace (fst (after_loop r True d t')))" by simp
next
  fix n t t' res assume "prefix (trace s) (trace t)" "attempt (env n) n t = Return t' res"
  with attempt_prefix(3) show "prefix (trace s) (trace (fst (t', res)))"
    by (auto intro: prefix_order.trans)
next
  fix n and t :: app assume "prefix (trace s) (trace t)"
  then show "prefix (trace s) (trace (fst (after_loop r False None t)))" by simp
qed

lemma generateSingleView_prefix: "prefix (trace s) (trace (fst (generateSingleView r env s)))"
  using attempts_prefix [of "updateUIState Loading r s" r env 1]
  by (auto simp: generateSingleView_def elim: prefix_order.trans [rotated])

lemma startGenerationProcess_prefix: "prefix (trace s) (trace (startGenerationProcess env s))"
  using generateSingleView_prefix
    [of "s\<lparr>isGenerationTerminated := False, failureCount := 0, successfulImageData := None\<rparr>"
      False env]
  by (simp add: startGenerationProcess_def)

subsection \<open>A session without a reload leaves the log and the store alone\<close>

lemma handle_log:
  "\<not> is_reload h \<Longrightarrow>
     generationTimestamps (handle h s) = generationTimestamps s \<and> store (handle h s) = store s"
  by (cases h) (simp_all add: resetUI_def handleFile_def split: upload.splits)

lemma run_handlers_log:
  "\<not> list_ex is_reload hs \<Longrightarrow>
     generationTimestamps (run_handlers hs s) = generationTimestamps s \<and>
     store (run_handlers hs s) = store s"
  by (induction hs arbitrary: s) (simp_all add: handle_log)

lemma attempt_log:
  assumes "\<not> list_ex is_reload (during_generate e)" and "\<not> list_ex is_reload (during_verify e)"
  shows "attempt e n s = Continue s' \<Longrightarrow>
           generationTimestamps s' = generationTimestamps s \<and> store s' = store s"
    and "attempt e n s = Break d s' \<Longrightarrow>
           generationTimestamps s' = generationTimestamps s \<and> store s' = store s"
    and "attempt e n s = Return s' res \<Longrightarrow>
           generationTimestamps s' = generationTimestamps s \<and> store s' = store s"
  using assms
  by (auto simp: attempt_def Let_def run_handlers_log split: if_splits sum.splits)

lemma attempts_log:
  assumes "no_reload env" and "1 \<le> n"
  shows "generationTimestamps (fst (attempts r env n s)) = generationTimestamps s \<and>
         store (fst (attempts r env n s)) = store s"
proof (rule attempts_rule [where
      I = "\<lambda>n t. 1 \<le> n \<and> generationTimestamps t = generationTimestamps s \<and> store t = store s"
      and Q = "\<lambda>x. generationTimestamps (fst x) = generationTimestamps s \<and> store (fst x) = store s"])
  from assms show "1 \<le> n \<and> generationTimestamps s = generationTimestamps s \<and> store s = store s"
    by simp
next
  fix n t t'
  assume n: "n \<le> MAX_ATTEMPTS"
    and i: "1 \<le> n \<and> generationTimestamps t = generationTimestamps s \<and> store t = store s"
    and a: "attempt (env n) n t = Continue t'"
  from n i assms(1) have "\<not> list_ex is_reload (during_generate (env n))"
    "\<not> list_ex is_reload (during_verify (env n))" by (simp_all add: no_reload_def)
  from attempt_log(1) [OF this a] i
  show "1 \<le> n + 1 \<and> generationTimestamps t' = generationTimestamps s \<and> store t' = store s"
    by simp
next
  fix n t d t'
  assume n: "n \<le> MAX_ATTEMPTS"
    and i: "1 \<le> n \<and> generationTimestamps t = generationTimestamps s \<and> store t = store s"
    and a: "attempt (env n) n t = Break d t'"
  from n i assms(1) have "\<not> list_ex is_reload (during_generate (env n))"
    "\<not> list_ex is_reload (during_verify (env n))" by (simp_all add: no_reload_def)
  from attempt_log(2) [OF this a] i
  show "generationTimestamps (fst (after_loop r True d t')) = generationTimestamps s \<and>
        store (fst (after_loop r True d t')) = store s"
    by simp
next
  fix n t t' res
  assume n: "n \<le> MAX_ATTEMPTS"
    and i: "1 \<le> n \<and> generationTimestamps t = generationTimestamps s \<and> store t = store s"
    and a: "attempt (env n) n t = Return t' res"
  from n i assms(1) have "\<not> list_ex is_reload (during_generate (env n))"
    "\<not> list_ex is_reload (during_verify (env n))" by (simp_all add: no_reload_def)
  from attempt_log(3) [OF this a] i
  show "generationTimestamps (fst (t', res)) = generationTimestamps s \<and> store (fst (t', res)) = store s"
    by simp
next
  fix n and t :: app
  assume "1 \<le> n \<and> generationTimestamps t = generationTimestamps s \<and> store t = store s"
  then show "generationTimestamps (fst (after_loop r False None t)) = generationTimestamps s \<and>
        store (fst (after_loop r False None t)) = store s"
    by simp
qed

lemma generateSingleView_log:
  "no_reload env \<Longrightarrow>
     generationTimestamps (fst (generateSingleView r env s)) = generationTimestamps s \<and>
     store (fst (generateSingleView r env s)) = store s"
  using attempts_log [of env 1 r "updateUIState Loading r s"]
  by (simp add: generateSingleView_def)

lemma startGenerationProcess_log:
  "no_reload env \<Longrightarrow>
     generationTimestamps (startGenerationProcess env s) = generationTimestamps s \<and>
     store (startGenerationProcess env s) = store s"
  using generateSingleView_log
    [of env False "s\<lparr>isGenerationTerminated := False, failureCount := 0, successfulImageData := None\<rparr>"]
  by (simp add: startGenerationProcess_def)

subsection \<open>A click on a generation button\<close>

lemma click_denied:
  "RATE_LIMIT_MAX_GENERATIONS \<le> length (generationTimestamps (loadRateLimitData now_load s)) \<Longrightarrow>
     handleGenerationClick k now_load now_push env s =
       emit (Alert QuotaReached) (loadRateLimitData now_load s)"
  by (simp add: handleGenerationClick_def Let_def)

lemma click_admitted:
  "length (generationTimestamps (loadRateLimitData now_load s)) < RATE_LIMIT_MAX_GENERATIONS \<Longrightarrow>
     handleGenerationClick k now_load now_push env s =
       (let s2 = saveTimestamps
                   ((loadRateLimitData now_load s)
                      \<lparr>generationTimestamps :=
                         generationTimestamps (loadRateLimitData now_load s) @ [JNumber now_push]\<rparr>)
        in case k of
             Generate \<Rightarrow> startGenerationProcess env s2
           | Regenerate \<Rightarrow> fst (generateSingleView True env s2))"
  by (simp add: handleGenerationClick_def Let_def)

text \<open>
  Claim C3. When the log that \<^verbatim>\<open>loadRateLimitData\<close> leaves has
  \<open>RATE_LIMIT_MAX_GENERATIONS\<close> entries or more, \<^verbatim>\<open>handleGenerationClick\<close> does
  nothing after the load but show the alert: the log and the store are those of the load,
  the trace gains the write of the load and then the alert, no remote call is made, and
  the status, the failure counter, the stored image and the cancellation flag are as
  before the click.
\<close>

theorem denied_click_has_no_effect:
  "RATE_LIMIT_MAX_GENERATIONS \<le> length (generationTimestamps (loadRateLimitData now_load s)) \<Longrightarrow>
     (let s1 = loadRateLimitData now_load s;
          s' = handleGenerationClick k now_load now_push env s
      in s' = emit (Alert QuotaReached) s1 \<and>
         generationTimestamps s' = generationTimestamps s1 \<and>
         store s' = Some (JSON_stringify (generationTimestamps s1)) \<and>
         trace s' = trace s @ [SetItem (JSON_stringify (generationTimestamps s1)), Alert QuotaReached] \<and>
         status s' = status s \<and>
         generate_calls s' = generate_calls s \<and>
         verify_calls s' = verify_calls s \<and>
         failureCount s' = failureCount s \<and>
         successfulImageData s' = successfulImageData s \<and>
         isGenerationTerminated s' = isGenerationTerminated s)"
  by (simp add: click_denied Let_def load_persists load_trace generate_calls_def verify_calls_def)

lemma five_used_load:
  "generationTimestamps (loadRateLimitData 300000 five_used) =
     map JNumber [0, 60000, 120000, 180000, 240000]"
  by (simp add: five_used_def fresh_def run_load)

theorem denied_click_has_no_effect_witness:
  "RATE_LIMIT_MAX_GENERATIONS \<le> length (generationTimestamps (loadRateLimitData 300000 five_used)) \<and>
   generationTimestamps (handleGenerationClick Generate 300000 300000 env_image five_used) =
     map JNumber [0, 60000, 120000, 180000, 240000] \<and>
   trace (handleGenerationClick Generate 300000 300000 env_image five_used) =
     [SetItem (JSON_stringify (map JNumber [0, 60000, 120000, 180000, 240000])), Alert QuotaReached] \<and>
   status (handleGenerationClick Generate 300000 300000 env_image five_used) = Idle"
proof -
  have h: "RATE_LIMIT_MAX_GENERATIONS \<le> length (generationTimestamps (loadRateLimitData 300000 five_used))"
    by (simp add: five_used_load RATE_LIMIT_MAX_GENERATIONS_def)
  have "trace five_used = []" "status five_used = Idle"
    by (simp_all add: five_used_def fresh_def)
  with denied_click_has_no_effect [OF h, of Generate 300000 env_image] h five_used_load
  show ?thesis by (simp add: Let_def load_trace)
qed

lemma load_entries_within:
  assumes "e \<in> set (generationTimestamps (loadRateLimitData now s))"
  shows "within_window now e = Inr True"
proof (cases "store s")
  case None
  with assms show ?thesis by (simp add: load_log)
next
  case (Some d)
  show ?thesis
  proof (cases "try_block now d")
    case (Inl x)
    with Some assms show ?thesis by (simp add: load_log)
  next
    case (Inr ys)
    with Some assms have e: "e \<in> set ys" by (simp add: load_log)
    from Inr obtain doc where doc: "JSON_parse d = Inr doc"
      by (auto simp: try_block_def split: sum.splits)
    show ?thesis
    proof (cases doc)
      case OtherValue
      with doc Inr e show ?thesis by (simp add: try_block_def)
    next
      case (ArrayValue xs)
      with doc Inr obtain zs where "filter_js (within_window now) zs = Inr ys"
        by (auto simp: try_block_def split: sum.splits)
      from filter_js_Inr [OF this] e show ?thesis by simp
    qed
  qed
qed

lemma written_entries_coerce:
  "list_all coerces
     (map stringify_elem (generationTimestamps (loadRateLimitData now s)) @ [JNumber t])"
proof -
  have "coerces (stringify_elem e)"
    if "e \<in> set (generationTimestamps (loadRateLimitData now s))" for e
  proof -
    from load_entries_within [OF that] have "coerces e"
      by (auto simp: within_window_True coerces_def)
    then show ?thesis by (cases e) (simp_all add: coerces_def)
  qed
  then show ?thesis by (simp add: list_all_iff coerces_def)
qed

text \<open>
  Claim C4. When the click is admitted, of either kind, the first effects of
  \<^verbatim>\<open>handleGenerationClick\<close> are the write of the load and the write of the log
  with the new timestamp appended; every other effect of the click, each remote call
  among them, comes later in the trace. When no reload runs during the session, then
  whatever the remote calls reply the store holds, when the session ends, the array of
  the pruned entries followed by the new timestamp, and every later load whose clock is
  less than the window past the timestamp finds the timestamp in the log: the request
  counts against the quota.
\<close>

theorem admitted_timestamp_saved_first:
  "length (generationTimestamps (loadRateLimitData now_load s)) < RATE_LIMIT_MAX_GENERATIONS \<Longrightarrow>
     (let pruned = generationTimestamps (loadRateLimitData now_load s);
          written = map stringify_elem pruned @ [JNumber now_push];
          s' = handleGenerationClick k now_load now_push env s
      in (\<exists>later. trace s' =
            trace s @ [SetItem (Encoding (ArrayValue (map stringify_elem pruned))),
                       SetItem (Encoding (ArrayValue written))] @ later) \<and>
         (no_reload env \<longrightarrow>
            store s' = Some (Encoding (ArrayValue written)) \<and>
            generationTimestamps s' = pruned @ [JNumber now_push] \<and>
            (\<forall>next_load. next_load - now_push < RATE_LIMIT_WINDOW_MS \<longrightarrow>
               JNumber now_push \<in> set (generationTimestamps (loadRateLimitData next_load s')))))"
proof -
  assume adm: "length (generationTimestamps (loadRateLimitData now_load s)) < RATE_LIMIT_MAX_GENERATIONS"
  let ?s1 = "loadRateLimitData now_load s"
  let ?pruned = "generationTimestamps ?s1"
  let ?written = "map stringify_elem ?pruned @ [JNumber now_push]"
  let ?s2 = "saveTimestamps (?s1\<lparr>generationTimestamps := ?pruned @ [JNumber now_push]\<rparr>)"
  let ?s' = "handleGenerationClick k now_load now_push env s"
  have s': "?s' = (case k of Generate \<Rightarrow> startGenerationProcess env ?s2
                   | Regenerate \<Rightarrow> fst (generateSingleView True env ?s2))"
    using click_admitted [OF adm] by (simp add: Let_def)
  have t2: "trace ?s2 = trace s @ [SetItem (Encoding (ArrayValue (map stringify_elem ?pruned))),
      SetItem (Encoding (ArrayValue ?written))]"
    by (simp add: load_trace JSON_stringify_def)
  have "prefix (trace ?s2) (trace ?s')"
    unfolding s'
    by (cases k) (simp_all only: kind.case startGenerationProcess_prefix generateSingleView_prefix)
  then obtain later where "trace ?s' = trace ?s2 @ later" by (auto simp: prefix_def)
  with t2 have a: "\<exists>later. trace ?s' =
      trace s @ [SetItem (Encoding (ArrayValue (map stringify_elem ?pruned))),
                 SetItem (Encoding (ArrayValue ?written))] @ later"
    by simp
  have b: "store ?s' = Some (Encoding (ArrayValue ?written)) \<and>
      generationTimestamps ?s' = ?pruned @ [JNumber now_push] \<and>
      (\<forall>next_load. next_load - now_push < RATE_LIMIT_WINDOW_MS \<longrightarrow>
         JNumber now_push \<in> set (generationTimestamps (loadRateLimitData next_load ?s')))"
    if quiet: "no_reload env"
  proof -
    have st: "store ?s' = Some (Encoding (ArrayValue ?written))"
      and log: "generationTimestamps ?s' = ?pruned @ [JNumber now_push]"
      unfolding s' using startGenerationProcess_log [OF quiet, of ?s2]
        generateSingleView_log [OF quiet, of True ?s2]
      by (cases k; simp add: JSON_stringify_def)+
    have "JNumber now_push \<in> set (generationTimestamps (loadRateLimitData next_load ?s'))"
      if "next_load - now_push < RATE_LIMIT_WINDOW_MS" for next_load
    proof -
      from load_array_coerces [OF st written_entries_coerce, of next_load]
      have "set (generationTimestamps (loadRateLimitData next_load ?s')) =
          {x \<in> set ?written. within_window next_load x = Inr True}" .
      moreover from that have "within_window next_load (JNumber now_push) = Inr True"
        by (simp add: within_window_True)
      ultimately show ?thesis by simp
    qed
    with st log show ?thesis by blast
  qed
  from a b show ?thesis unfolding Let_def by blast
qed

lemma uploaded_fields:
  "store uploaded = Some (JSON_stringify [])" "generationTimestamps uploaded = []"
  "trace uploaded = [SetItem (JSON_stringify [])]"
  "uploadedBase64Image uploaded = Some ''iVBORw0K''" "failureCount uploaded = 0"
  "isGenerationTerminated uploaded = False" "isCartoonMode uploaded = False"
  "status uploaded = Idle" "successfulImageData uploaded = None"
  by (simp_all add: uploaded_def constructor_def fresh_def handleFile_def after_comma_def
      loadRateLimitData_def saveTimestamps_def emit_def)

theorem admitted_timestamp_saved_first_witness:
  "length (generationTimestamps (loadRateLimitData 1000 uploaded)) < RATE_LIMIT_MAX_GENERATIONS \<and>
   no_reload env_failing \<and>
   store (handleGenerationClick Generate 1000 1000 env_failing uploaded) =
     Some (Encoding (ArrayValue [JNumber 1000])) \<and>
   2000 - 1000 < RATE_LIMIT_WINDOW_MS \<and>
   JNumber 1000 \<in> set (generationTimestamps
     (loadRateLimitData 2000 (handleGenerationClick Generate 1000 1000 env_failing uploaded))) \<and>
   trace (handleGenerationClick Generate 1000 1000 env_failing uploaded) =
     [SetItem (Encoding (ArrayValue [])), SetItem (Encoding (ArrayValue [])),
      SetItem (Encoding (ArrayValue [JNumber 1000])),
      UpdateUIState Loading False,
      GenerateContent 1, GenerateContent 2, GenerateContent 3, GenerateContent 4, GenerateContent 5,
      UpdateUIState Failure False]"
proof -
  let ?s' = "handleGenerationClick Generate 1000 1000 env_failing uploaded"
  have l: "generationTimestamps (loadRateLimitData 1000 uploaded) = []"
    by (simp add: load_log uploaded_fields JSON_stringify_def try_block_def)
  then have h: "length (generationTimestamps (loadRateLimitData 1000 uploaded)) < RATE_LIMIT_MAX_GENERATIONS"
    by (simp add: RATE_LIMIT_MAX_GENERATIONS_def)
  have n: "no_reload env_failing" by (simp add: no_reload_def env_failing_def)
  have w: "(2000::int) - 1000 < RATE_LIMIT_WINDOW_MS" by (simp add: RATE_LIMIT_WINDOW_MS_def)
  note saved = admitted_timestamp_saved_first
    [OF h, where k = Generate and now_push = 1000 and env = env_failing, unfolded Let_def l]
  from saved n have st: "store ?s' = Some (Encoding (ArrayValue [JNumber 1000]))"
    and later: "\<forall>next_load. next_load - 1000 < RATE_LIMIT_WINDOW_MS \<longrightarrow>
        JNumber 1000 \<in> set (generationTimestamps (loadRateLimitData next_load ?s'))"
    by simp_all
  from later w have found: "JNumber 1000 \<in> set (generationTimestamps (loadRateLimitData 2000 ?s'))"
    by blast
  have tr: "trace ?s' =
     [SetItem (Encoding (ArrayValue [])), SetItem (Encoding (ArrayValue [])),
      SetItem (Encoding (ArrayValue [JNumber 1000])),
      UpdateUIState Loading False,
      GenerateContent 1, GenerateContent 2, GenerateContent 3, GenerateContent 4, GenerateContent 5,
      UpdateUIState Failure False]"
    by (simp add: click_admitted [OF h] l load_trace uploaded_fields startGenerationProcess_def
        run_session env_failing_def JSON_stringify_def)
  from h n st w found tr show ?thesis by blast
qed

subsection \<open>The limit\<close>

lemma load_length:
  "length (generationTimestamps (loadRateLimitData now s)) \<le> stored_length (store s)"
proof (cases "store s" rule: stored_length.cases)
  case (1 xs)
  from load_array_subset [OF this] 1 show ?thesis by simp
qed (simp_all add: load_log try_block_def)

lemma load_within_limit:
  "stored_length (store s) \<le> RATE_LIMIT_MAX_GENERATIONS \<Longrightarrow> within_limit (loadRateLimitData now s)"
  using load_length [of now s]
  by (simp add: within_limit_def load_persists JSON_stringify_def)

lemma handle_within_limit: "within_limit s \<Longrightarrow> within_limit (handle h s)"
proof (cases h)
  case (TimerReload now)
  assume "within_limit s"
  then have "within_limit (loadRateLimitData now s)"
    by (intro load_within_limit) (simp add: within_limit_def)
  with TimerReload show ?thesis by simp
qed (simp_all add: within_limit_def resetUI_def handleFile_def split: upload.splits)

lemma run_handlers_within_limit: "within_limit s \<Longrightarrow> within_limit (run_handlers hs s)"
  by (induction hs arbitrary: s) (simp_all add: handle_within_limit)

lemma emit_within_limit: "within_limit (emit a s) = within_limit s"
  by (simp add: within_limit_def)

lemma attempt_within_limit:
  assumes "within_limit s"
  shows "attempt e n s = Continue s' \<Longrightarrow> within_limit s'"
    and "attempt e n s = Break d s' \<Longrightarrow> within_limit s'"
    and "attempt e n s = Return s' res \<Longrightarrow> within_limit s'"
proof -
  let ?s1 = "run_handlers (during_generate e) (emit (GenerateContent n) s)"
  let ?s2 = "run_handlers (during_verify e) (emit VerifyContent ?s1)"
  from assms have w1: "within_limit ?s1"
    by (simp add: run_handlers_within_limit emit_within_limit)
  then have w2: "within_limit ?s2"
    by (simp add: run_handlers_within_limit emit_within_limit)
  show "attempt e n s = Continue s' \<Longrightarrow> within_limit s'"
    using w1 w2 by (auto simp: attempt_def Let_def split: if_splits sum.splits)
  show "attempt e n s = Break d s' \<Longrightarrow> within_limit s'"
    using w1 w2 by (auto simp: attempt_def Let_def split: if_splits sum.splits)
  show "attempt e n s = Return s' res \<Longrightarrow> within_limit s'"
    using assms by (auto simp: attempt_def Let_def within_limit_def split: if_splits sum.splits)
qed

lemma attempts_within_limit:
  assumes "within_limit s"
  shows "within_limit (fst (attempts r env n s))"
proof (rule attempts_rule [where I = "\<lambda>n t. within_limit t" and Q = "\<lambda>x. within_limit (fst x)"])
  show "within_limit s" by (rule assms)
next
  fix n t t' assume "within_limit t" "attempt (env n) n t = Continue t'"
  then show "within_limit t'" by (rule attempt_within_limit(1))
next
  fix n t d t' assume "within_limit t" "attempt (env n) n t = Break d t'"
  then have "within_limit t'" by (rule attempt_within_limit(2))
  then show "within_limit (fst (after_loop r True d t'))" by (simp add: within_limit_def)
next
  fix n t t' res assume "within_limit t" "attempt (env n) n t = Return t' res"
  then have "within_limit t'" by (rule attempt_within_limit(3))
  then show "within_limit (fst (t', res))" by simp
next
  fix n and t :: app assume "within_limit t"
  then show "within_limit (fst (after_loop r False None t))" by (simp add: within_limit_def)
qed

lemma generateSingleView_within_limit:
  "within_limit s \<Longrightarrow> within_limit (fst (generateSingleView r env s))"
  using attempts_within_limit [of "updateUIState Loading r s" r env 1]
  by (simp add: generateSingleView_def within_limit_def)

lemma startGenerationProcess_within_limit:
  "within_limit s \<Longrightarrow> within_limit (startGenerationProcess env s)"
  using generateSingleView_within_limit
    [of "s\<lparr>isGenerationTerminated := False, failureCount := 0, successfulImageData := None\<rparr>" False env]
  by (simp add: startGenerationProcess_def within_limit_def)

lemma click_within_limit:
  assumes "within_limit s"
  shows "within_limit (handleGenerationClick k now_load now_push env s)"
proof -
  let ?s1 = "loadRateLimitData now_load s"
  from assms have w1: "within_limit ?s1"
    by (intro load_within_limit) (simp add: within_limit_def)
  show ?thesis
  proof (cases "RATE_LIMIT_MAX_GENERATIONS \<le> length (generationTimestamps ?s1)")
    case True
    with w1 show ?thesis by (simp add: click_denied emit_within_limit)
  next
    case False
    let ?s2 = "saveTimestamps (?s1\<lparr>generationTimestamps := generationTimestamps ?s1 @ [JNumber now_push]\<rparr>)"
    from False have "within_limit ?s2" by (simp add: within_limit_def JSON_stringify_def)
    then have "within_limit (startGenerationProcess env ?s2)"
      "within_limit (fst (generateSingleView True env ?s2))"
      by (rule startGenerationProcess_within_limit, rule generateSingleView_within_limit)
    with False show ?thesis by (cases k) (simp_all add: click_admitted Let_def)
  qed
qed

lemma step_within_limit: "within_limit s \<Longrightarrow> within_limit (step e s)"
  by (cases e) (simp_all add: click_within_limit handle_within_limit)

lemma run_within_limit: "within_limit s \<Longrightarrow> within_limit (run es s)"
  by (induction es arbitrary: s) (simp_all add: step_within_limit)

lemma active_le_length: "active now s \<le> length (generationTimestamps s)"
  by (simp add: active_def)

text \<open>
  Claim C2. A click that finds \<open>RATE_LIMIT_MAX_GENERATIONS\<close> entries or more in the
  pruned log leaves the log as pruned; a click that finds fewer appends its one timestamp
  to the pruned log. So from a state whose log and store hold at most
  \<open>RATE_LIMIT_MAX_GENERATIONS\<close> entries, every run of clicks and handlers, with any
  clock values, ends with at most that many entries in the log and in the store, hence
  with at most that many entries whose age is below the window at any time.
\<close>

theorem admission_never_exceeds_limit:
  "(let pruned = generationTimestamps (loadRateLimitData now_load s);
        s' = handleGenerationClick k now_load now_push env s
    in (RATE_LIMIT_MAX_GENERATIONS \<le> length pruned \<longrightarrow> generationTimestamps s' = pruned) \<and>
       (length pruned < RATE_LIMIT_MAX_GENERATIONS \<and> no_reload env \<longrightarrow>
          generationTimestamps s' = pruned @ [JNumber now_push])) \<and>
   (within_limit s \<longrightarrow>
      length (generationTimestamps (run es s)) \<le> RATE_LIMIT_MAX_GENERATIONS \<and>
      stored_length (store (run es s)) \<le> RATE_LIMIT_MAX_GENERATIONS \<and>
      active now (run es s) \<le> RATE_LIMIT_MAX_GENERATIONS)"
proof (intro conjI impI)
  show "let pruned = generationTimestamps (loadRateLimitData now_load s);
        s' = handleGenerationClick k now_load now_push env s
    in (RATE_LIMIT_MAX_GENERATIONS \<le> length pruned \<longrightarrow> generationTimestamps s' = pruned) \<and>
       (length pruned < RATE_LIMIT_MAX_GENERATIONS \<and> no_reload env \<longrightarrow>
          generationTimestamps s' = pruned @ [JNumber now_push])"
    using startGenerationProcess_log [of env] generateSingleView_log [of env True]
    by (cases k) (auto simp: Let_def click_denied click_admitted)
next
  assume "within_limit s"
  then have w: "within_limit (run es s)" by (rule run_within_limit)
  then show "length (generationTimestamps (run es s)) \<le> RATE_LIMIT_MAX_GENERATIONS"
    "stored_length (store (run es s)) \<le> RATE_LIMIT_MAX_GENERATIONS"
    by (simp_all add: within_limit_def)
  from w active_le_length [of now "run es s"]
  show "active now (run es s) \<le> RATE_LIMIT_MAX_GENERATIONS"
    by (simp add: within_limit_def)
qed

theorem admission_never_exceeds_limit_witness:
  "RATE_LIMIT_MAX_GENERATIONS \<le> length (generationTimestamps (loadRateLimitData 300000 five_used)) \<and>
   generationTimestamps (handleGenerationClick Regenerate 300000 300000 env_image five_used) =
     map JNumber [0, 60000, 120000, 180000, 240000] \<and>
   length (generationTimestamps (loadRateLimitData 610000 five_used)) < RATE_LIMIT_MAX_GENERATIONS \<and>
   no_reload env_image \<and>
   generationTimestamps (handleGenerationClick Regenerate 610000 610000 env_image five_used) =
     map JNumber [60000, 120000, 180000, 240000, 610000] \<and>
   within_limit (constructor None 0) \<and>
   generationTimestamps (run six_clicks (constructor None 0)) =
     map JNumber [0, 60000, 120000, 180000, 240000] \<and>
   active 300000 (run six_clicks (constructor None 0)) \<le> RATE_LIMIT_MAX_GENERATIONS"
proof -
  have l: "generationTimestamps (loadRateLimitData 610000 five_used) =
      map JNumber [60000, 120000, 180000, 240000]"
    by (simp add: five_used_def fresh_def run_load)
  have n: "no_reload env_image" by (simp add: no_reload_def env_image_def)
  have w: "within_limit (constructor None 0)"
    by (simp add: within_limit_def constructor_def fresh_def run_load RATE_LIMIT_MAX_GENERATIONS_def)
  have r: "generationTimestamps (run six_clicks (constructor None 0)) =
     map JNumber [0, 60000, 120000, 180000, 240000]"
    by (simp add: six_clicks_def constructor_def fresh_def handleGenerationClick_def
        RATE_LIMIT_MAX_GENERATIONS_def run_load run_session env_image_def)
  from admission_never_exceeds_limit
    [where s = five_used and now_load = 300000 and now_push = 300000 and k = Regenerate
      and env = env_image and es = "[]"]
    admission_never_exceeds_limit
    [where s = five_used and now_load = 610000 and now_push = 610000 and k = Regenerate
      and env = env_image and es = "[]"]
    admission_never_exceeds_limit
    [where s = "constructor None 0" and es = six_clicks and now = 300000
      and now_load = 0 and now_push = 0 and k = Regenerate and env = env_image]
    five_used_load l n w r
  show ?thesis by (simp add: Let_def RATE_LIMIT_MAX_GENERATIONS_def)
qed

section \<open>Starting a session\<close>

subsection \<open>The cancellation flag\<close>

text \<open>A generate session with a photo uploaded always makes its first attempt, whatever
  the flag was before: \<^verbatim>\<open>startGenerationProcess\<close> resets it.\<close>

lemma attempt_first_call:
  assumes "\<not> isGenerationTerminated s"
  shows "attempt e n s = Continue s' \<Longrightarrow> prefix (trace s @ [GenerateContent n]) (trace s')"
    and "attempt e n s = Break d s' \<Longrightarrow> prefix (trace s @ [GenerateContent n]) (trace s')"
    and "attempt e n s \<noteq> Return s' res"
proof -
  let ?s0 = "emit (GenerateContent n) s"
  let ?s1 = "run_handlers (during_generate e) ?s0"
  let ?s2 = "run_handlers (during_verify e) (emit VerifyContent ?s1)"
  have p1: "prefix (trace s @ [GenerateContent n]) (trace ?s1)"
    using run_handlers_prefix [of ?s0 "during_generate e"] by simp
  have "prefix (trace ?s1) (trace ?s2)" by (rule run_handlers_after_emit)
  with p1 have p2: "prefix (trace s @ [GenerateContent n]) (trace ?s2)"
    by (rule prefix_order.trans)
  show "attempt e n s = Continue s' \<Longrightarrow> prefix (trace s @ [GenerateContent n]) (trace s')"
    using p1 p2 assms by (auto simp: attempt_def Let_def split: if_splits sum.splits)
  show "attempt e n s = Break d s' \<Longrightarrow> prefix (trace s @ [GenerateContent n]) (trace s')"
    using p1 p2 assms by (auto simp: attempt_def Let_def split: if_splits sum.splits)
  show "attempt e n s \<noteq> Return s' res"
    using assms by (auto simp: attempt_def Let_def split: if_splits sum.splits)
qed

lemma attempts_first_call:
  assumes "\<not> isGenerationTerminated s" and "n \<le> MAX_ATTEMPTS"
  shows "prefix (trace s @ [GenerateContent n]) (trace (fst (attempts r env n s)))"
proof (cases "attempt (env n) n s")
  case (Continue s')
  from attempt_first_call(1) [OF assms(1) Continue] attempts_prefix [of s' r env "n + 1"]
  have "prefix (trace s @ [GenerateContent n]) (trace (fst (attempts r env (n + 1) s')))"
    by (rule prefix_order.trans)
  with assms(2) Continue show ?thesis by (simp add: attempts.simps [of r env n s])
next
  case (Break d s')
  from attempt_first_call(2) [OF assms(1) Break]
  have "prefix (trace s @ [GenerateContent n]) (trace (fst (after_loop r True d s')))"
    by (auto simp: prefix_def)
  with assms(2) Break show ?thesis by (simp add: attempts.simps [of r env n s])
next
  case (Return s' res)
  with attempt_first_call(3) [OF assms(1)] show ?thesis by simp
qed

lemma generate_path_resets_flag:
  assumes "truthy (uploadedBase64Image s)"
  shows "prefix (trace s @ [UpdateUIState Loading False, GenerateContent 1])
           (trace (startGenerationProcess env s))"
proof -
  let ?s0 = "s\<lparr>isGenerationTerminated := False, failureCount := 0, successfulImageData := None\<rparr>"
  have "prefix (trace (updateUIState Loading False ?s0) @ [GenerateContent 1])
          (trace (fst (attempts False env 1 (updateUIState Loading False ?s0))))"
    by (rule attempts_first_call) (simp_all add: MAX_ATTEMPTS_def)
  with assms show ?thesis by (simp add: startGenerationProcess_def generateSingleView_def)
qed

text \<open>
  Claim C7 at a regeneration. A generate session is cancelled during its first attempt;
  the flag stays set. The click on regenerate that follows is admitted and its timestamp
  is written, the status goes to loading, and the first check of the loop returns
  terminated: the generation capability is never called, although it would reply with an
  image. Only \<^verbatim>\<open>startGenerationProcess\<close> resets the flag.
\<close>

theorem regenerate_after_cancel_makes_no_attempt:
  "trace (run [GenerationClick Generate 1000 1000 env_cancelled] uploaded) =
     [SetItem (JSON_stringify []), SetItem (JSON_stringify []), SetItem (JSON_stringify [JNumber 1000]),
      UpdateUIState Loading False, GenerateContent 1, UpdateUIState Terminating False] \<and>
   isGenerationTerminated (run [GenerationClick Generate 1000 1000 env_cancelled] uploaded) \<and>
   trace (run [GenerationClick Generate 1000 1000 env_cancelled,
               GenerationClick Regenerate 2000 2000 env_image] uploaded) =
     [SetItem (JSON_stringify []), SetItem (JSON_stringify []), SetItem (JSON_stringify [JNumber 1000]),
      UpdateUIState Loading False, GenerateContent 1, UpdateUIState Terminating False,
      SetItem (JSON_stringify [JNumber 1000]), SetItem (JSON_stringify [JNumber 1000, JNumber 2000]),
      UpdateUIState Loading True, UpdateUIState Terminating False] \<and>
   isGenerationTerminated (run [GenerationClick Generate 1000 1000 env_cancelled,
               GenerationClick Regenerate 2000 2000 env_image] uploaded) \<and>
   generationTimestamps (run [GenerationClick Generate 1000 1000 env_cancelled,
               GenerationClick Regenerate 2000 2000 env_image] uploaded) =
     [JNumber 1000, JNumber 2000]"
  by (simp add: uploaded_def constructor_def fresh_def handleFile_def after_comma_def
      handleGenerationClick_def startGenerationProcess_def RATE_LIMIT_MAX_GENERATIONS_def
      loadRateLimitData_def saveTimestamps_def try_block_def SortCompare_def js_minus_def
      within_window_def JSON_stringify_def RATE_LIMIT_WINDOW_MS_def
      run_session env_cancelled_def env_image_def)

subsection \<open>The failure counter\<close>










end
